theory Spec2Isabelle
  imports Main
begin

section \<open>JavaScript strings\<close>

text \<open>
  The plugin \<^verbatim>\<open>vite-plugin-wasm-pack\<close> (\<^verbatim>\<open>src/index.ts\<close>) is modelled function by
  function. Names are the source's; \<^verbatim>\<open>_crateName\<close> and \<^verbatim>\<open>_runWasmPackBuild\<close> lose their
  underscore, and the identifier of \<^verbatim>\<open>resolveId\<close> and \<^verbatim>\<open>load\<close> is \<open>ident\<close>.

  Strings are character lists. The plugin uses \<^verbatim>\<open>indexOf\<close>, \<^verbatim>\<open>replace\<close> with a string
  pattern (first occurrence only), \<^verbatim>\<open>toLowerCase\<close> (here on the letters A to Z) and
  \<^verbatim>\<open>endsWith\<close>.
\<close>

definition startsWith :: "string \<Rightarrow> string \<Rightarrow> bool" where
  "startsWith s pat = (take (length pat) s = pat)"

definition endsWith :: "string \<Rightarrow> string \<Rightarrow> bool" where
  "endsWith s suf = (length suf \<le> length s \<and> drop (length s - length suf) s = suf)"

primrec indexOf_from :: "nat \<Rightarrow> string \<Rightarrow> string \<Rightarrow> int" where
  "indexOf_from i [] pat = (if pat = [] then int i else - 1)"
| "indexOf_from i (c # cs) pat =
     (if startsWith (c # cs) pat then int i else indexOf_from (Suc i) cs pat)"

definition indexOf :: "string \<Rightarrow> string \<Rightarrow> int" where
  "indexOf s pat = indexOf_from 0 s pat"

text \<open>\<^verbatim>\<open>s.replace(pat, rep)\<close> for a string pattern: only the first occurrence is replaced.
  The plugin's replacement is the empty string, so the dollar patterns of the replacement
  text play no role.\<close>

primrec replace :: "string \<Rightarrow> string \<Rightarrow> string \<Rightarrow> string" where
  "replace [] pat rep = (if pat = [] then rep else [])"
| "replace (c # cs) pat rep =
     (if startsWith (c # cs) pat then rep @ drop (length pat) (c # cs)
      else c # replace cs pat rep)"

definition lower_char :: "char \<Rightarrow> char" where
  "lower_char c =
     (case map_of (zip ''ABCDEFGHIJKLMNOPQRSTUVWXYZ'' ''abcdefghijklmnopqrstuvwxyz'') c of
        None \<Rightarrow> c
      | Some d \<Rightarrow> d)"

definition toLowerCase :: "string \<Rightarrow> string" where
  "toLowerCase s = map lower_char s"

section \<open>Node's path module (POSIX flavour)\<close>

text \<open>
  The plugin calls \<^verbatim>\<open>path.resolve\<close>, \<^verbatim>\<open>path.basename\<close>, \<^verbatim>\<open>path.join\<close> and
  \<^verbatim>\<open>path.dirname\<close>. They are modelled on the segments between slashes: empty segments
  and \<^verbatim>\<open>.\<close> are dropped, \<^verbatim>\<open>..\<close> removes the segment before it (and is kept at the
  front of a relative path, dropped at the root of an absolute one).
\<close>

primrec segments :: "string \<Rightarrow> string list" where
  "segments [] = [[]]"
| "segments (c # cs) =
     (if c = CHR ''/'' then [] # segments cs
      else (case segments cs of [] \<Rightarrow> [[c]] | s # ss \<Rightarrow> (c # s) # ss))"

fun join_segs :: "string list \<Rightarrow> string" where
  "join_segs [] = []"
| "join_segs [s] = s"
| "join_segs (s # t # ts) = s @ ''/'' @ join_segs (t # ts)"

text \<open>One step of \<^verbatim>\<open>normalizeString\<close>; the stack holds the kept segments, last one first.\<close>

definition norm_step :: "bool \<Rightarrow> string \<Rightarrow> string list \<Rightarrow> string list" where
  "norm_step allowAboveRoot seg st =
     (if seg = [] \<or> seg = ''.'' then st
      else if seg = ''..'' then
        (case st of
           [] \<Rightarrow> if allowAboveRoot then [''..''] else []
         | t # ts \<Rightarrow> if t \<noteq> ''..'' then ts
                     else if allowAboveRoot then ''..'' # st else st)
      else seg # st)"

definition normalizeString :: "string \<Rightarrow> bool \<Rightarrow> string" where
  "normalizeString p allowAboveRoot =
     join_segs (rev (fold (norm_step allowAboveRoot) (segments p) []))"

definition isAbsolute :: "string \<Rightarrow> bool" where
  "isAbsolute p = (p \<noteq> [] \<and> hd p = CHR ''/'')"

text \<open>\<^verbatim>\<open>path.resolve\<close>: the arguments are taken from the right until one is absolute,
  the working directory last; empty arguments are skipped.\<close>

fun resolve_acc :: "string list \<Rightarrow> string \<Rightarrow> string \<times> bool" where
  "resolve_acc [] acc = (acc, False)"
| "resolve_acc (p # ps) acc =
     (if p = [] then resolve_acc ps acc
      else if isAbsolute p then (p @ ''/'' @ acc, True)
      else resolve_acc ps (p @ ''/'' @ acc))"

definition path_resolve :: "string \<Rightarrow> string list \<Rightarrow> string" where
  "path_resolve cwd args =
     (case resolve_acc (rev args @ [cwd]) [] of
        (resolvedPath, resolvedAbsolute) \<Rightarrow>
          (let n = normalizeString resolvedPath (\<not> resolvedAbsolute)
           in if resolvedAbsolute then ''/'' @ n
              else if n \<noteq> [] then n else ''.''))"

definition path_normalize :: "string \<Rightarrow> string" where
  "path_normalize p =
     (if p = [] then ''.''
      else
        (let n = normalizeString p (\<not> isAbsolute p);
             trailingSeparator = (last p = CHR ''/'')
         in if n = [] then
              (if isAbsolute p then ''/'' else if trailingSeparator then ''./'' else ''.'')
            else (if isAbsolute p then ''/'' else []) @ n
                 @ (if trailingSeparator then ''/'' else [])))"

definition path_join :: "string list \<Rightarrow> string" where
  "path_join args =
     (let joined = join_segs (filter (\<lambda>a. a \<noteq> []) args)
      in if joined = [] then ''.'' else path_normalize joined)"

definition path_basename :: "string \<Rightarrow> string" where
  "path_basename p =
     rev (takeWhile (\<lambda>c. c \<noteq> CHR ''/'') (dropWhile (\<lambda>c. c = CHR ''/'') (rev p)))"

definition path_dirname :: "string \<Rightarrow> string" where
  "path_dirname p =
     (if p = [] then ''.''
      else
        (let r = dropWhile (\<lambda>c. c \<noteq> CHR ''/'')
                   (dropWhile (\<lambda>c. c = CHR ''/'') (rev (tl p)))
         in if r = [] then (if isAbsolute p then ''/'' else ''.'')
            else if isAbsolute p \<and> length r = 1 then ''//''
            else take (length r) p))"

section \<open>JavaScript Map\<close>

text \<open>A \<^verbatim>\<open>Map\<close> keeps its entries in insertion order; \<^verbatim>\<open>set\<close> on a key that is present
  replaces the value where the key stands, and appends a new key at the end.\<close>

type_synonym ('k, 'v) jsmap = "('k \<times> 'v) list"

fun Map_set :: "'k \<Rightarrow> 'v \<Rightarrow> ('k, 'v) jsmap \<Rightarrow> ('k, 'v) jsmap" where
  "Map_set k v [] = [(k, v)]"
| "Map_set k v ((k', v') # m) =
     (if k' = k then (k, v) # m else (k', v') # Map_set k v m)"

definition Map_get :: "('k, 'v) jsmap \<Rightarrow> 'k \<Rightarrow> 'v option" where
  "Map_get m k = map_of m k"

definition Map_has :: "('k, 'v) jsmap \<Rightarrow> 'k \<Rightarrow> bool" where
  "Map_has m k = (map_of m k \<noteq> None)"

section \<open>The identifier registry\<close>

text \<open>The state of one plugin instance: the three lookup tables filled at construction.
  The two fields that \<^verbatim>\<open>configResolved\<close> stores are read by no hook and are left out.\<close>

record CrateInfoType =
  path :: string
  name :: string

record registry =
  wasmMap :: "(string, CrateInfoType) jsmap"
  cratePathLookup :: "(string, string) jsmap"
  crateNameLookup :: "(string, string) jsmap"

text \<open>The argument \<^verbatim>\<open>crates: string[] | string\<close>.\<close>

datatype crates_arg = OneCrate string | Crates "string list"

definition cratePaths :: "crates_arg \<Rightarrow> string list" where
  "cratePaths crates = (case crates of OneCrate c \<Rightarrow> [c] | Crates cs \<Rightarrow> cs)"

definition prefix :: string where
  "prefix = ''@wasm-pack@''"

text \<open>\<^verbatim>\<open>_crateName\<close>; the working directory of the process is the first argument.\<close>

definition crateName :: "string \<Rightarrow> string \<Rightarrow> string" where
  "crateName cwd cratePath = path_basename (path_resolve cwd [cratePath])"

definition wasmFileOf :: "string \<Rightarrow> string \<Rightarrow> string" where
  "wasmFileOf cwd cratePath = crateName cwd cratePath @ ''_bg.wasm''"

definition localPathOf :: "string \<Rightarrow> string \<Rightarrow> string" where
  "localPathOf cwd cratePath =
     path_resolve cwd [''node_modules'', crateName cwd cratePath, wasmFileOf cwd cratePath]"

text \<open>The body of \<^verbatim>\<open>cratePaths.forEach\<close>.\<close>

definition register :: "string \<Rightarrow> string \<Rightarrow> registry \<Rightarrow> registry" where
  "register cwd cratePath r =
     r\<lparr> wasmMap := Map_set (wasmFileOf cwd cratePath)
                      \<lparr>path = localPathOf cwd cratePath, name = crateName cwd cratePath\<rparr>
                      (wasmMap r),
        cratePathLookup := Map_set cratePath (wasmFileOf cwd cratePath) (cratePathLookup r),
        crateNameLookup := Map_set (crateName cwd cratePath) (wasmFileOf cwd cratePath)
                             (crateNameLookup r) \<rparr>"

definition empty_registry :: registry where
  "empty_registry = \<lparr>wasmMap = [], cratePathLookup = [], crateNameLookup = []\<rparr>"

definition vitePluginWasmPack :: "string \<Rightarrow> crates_arg \<Rightarrow> registry" where
  "vitePluginWasmPack cwd crates = fold (register cwd) (cratePaths crates) empty_registry"

section \<open>The host: process, file system, bundler\<close>

text \<open>
  What the plugin reaches outside itself is a parameter of the model: the working directory,
  the directory of the module (\<^verbatim>\<open>__dirname\<close>), \<^verbatim>\<open>chalk.bold\<close>, the child process started by
  \<^verbatim>\<open>exec\<close> (its result and what it leaves on disk), the JSON text codec behind
  \<^verbatim>\<open>fs.readJson\<close> and \<^verbatim>\<open>fs.writeJson\<close>, the paths the file system refuses to write, the
  text an error object turns into when it is appended to a string, and whether the bundler's
  \<^verbatim>\<open>this.error\<close> throws after reporting (Rollup's does) or returns.
\<close>

text \<open>What the callback of \<^verbatim>\<open>exec\<close> receives; \<open>error\<close> is the text of the error object,
  \<open>None\<close> when the process exits with code 0.\<close>

record exec_result =
  error :: "string option"
  stdout :: string
  stderr :: string

datatype json =
    JObject "(string \<times> json) list"
  | JArray "json list"
  | JString string
  | JNumber int
  | JBool bool
  | JNull

text \<open>What a promise is rejected with or a hook throws: the string \<^verbatim>\<open>_runWasmPackBuild\<close>
  rejects with, a file that is missing or cannot be written (with the path as given), a text
  that is not JSON, the assignment to a property of something that has none, and what
  \<^verbatim>\<open>this.error\<close> throws.\<close>

datatype exn =
    Reject string
  | ENOENT string
  | EACCES string
  | SyntaxError string
  | TypeError string
  | PluginError string

record host =
  cwd :: string
  module_dirname :: string
  chalk_bold :: "string \<Rightarrow> string"
  run_process :: "string \<Rightarrow> (string \<rightharpoonup> string) \<Rightarrow> exec_result \<times> (string \<rightharpoonup> string)"
  parse_json :: "string \<Rightarrow> json option"
  serialize_json :: "json \<Rightarrow> string"
  write_denied :: "string \<Rightarrow> bool"
  error_to_string :: "exn \<Rightarrow> string"
  error_hook_throws :: bool

text \<open>
  The world the hooks run in: the files, keyed by their normalized absolute path, and the
  trace of what the plugin did to its surroundings, in order: a command given to
  \<^verbatim>\<open>exec\<close>, a message given to \<^verbatim>\<open>this.warn\<close> or \<^verbatim>\<open>this.error\<close>, a file written (path and
  content), and a file given to \<^verbatim>\<open>this.emitFile\<close> (type, file name, source). A path is read
  and written relative to the working directory; a write that the file system refuses
  leaves the file as it is.
\<close>

datatype event =
    Exec string
  | Warn string
  | Error string
  | WriteFile string string
  | EmitFile string string string

record world =
  files :: "string \<rightharpoonup> string"
  trace :: "event list"

definition log_event :: "event \<Rightarrow> world \<Rightarrow> world" where
  "log_event e w = w\<lparr>trace := trace w @ [e]\<rparr>"


definition readFile :: "host \<Rightarrow> world \<Rightarrow> string \<Rightarrow> exn + string" where
  "readFile h w p =
     (case files w (path_resolve (cwd h) [p]) of
        None \<Rightarrow> Inl (ENOENT p)
      | Some content \<Rightarrow> Inr content)"




section \<open>The compiler invoker\<close>

definition wasmPackPath :: "host \<Rightarrow> string" where
  "wasmPackPath h =
     path_join [path_dirname (module_dirname h), ''node_modules'', ''.bin'', ''wasm-pack'']"

definition command_of :: "host \<Rightarrow> string \<Rightarrow> string" where
  "command_of h outDir = wasmPackPath h @ '' build --target web --out-dir '' @ outDir"

text \<open>\<^verbatim>\<open>_runWasmPackBuild(cratePath, outDir = 'pkg')\<close>. The promise is the result: \<open>Inl\<close> the
  rejection, \<open>Inr\<close> the value it resolves with. \<^verbatim>\<open>exec\<close> gets the command and no options.\<close>

definition runWasmPackBuild ::
  "host \<Rightarrow> string \<Rightarrow> string option \<Rightarrow> world \<Rightarrow> (exn + string) \<times> world" where
  "runWasmPackBuild h cratePath outDirArg w =
     (let outDir = (case outDirArg of None \<Rightarrow> ''pkg'' | Some d \<Rightarrow> d);
          command = command_of h outDir
      in case run_process h command (files w) of
           (r, files') \<Rightarrow>
             (let w' = log_event (Exec command) (w\<lparr>files := files'\<rparr>)
              in case error r of
                   Some e \<Rightarrow> (Inl (Reject (''wasm-pack execution error: '' @ e)), w')
                 | None \<Rightarrow> (Inr (stderr r), w')))"

section \<open>The build orchestrator\<close>










section \<open>The module resolver and loader\<close>

definition resolveId :: "registry \<Rightarrow> string \<Rightarrow> string option" where
  "resolveId r ident = (if Map_has (crateNameLookup r) ident then Some (prefix @ ident) else None)"

text \<open>\<^verbatim>\<open>load\<close>: \<open>Inr None\<close> is \<^verbatim>\<open>undefined\<close>, \<open>Inl\<close> the rejection of the read.\<close>

definition modulejs_of :: "string \<Rightarrow> string" where
  "modulejs_of ident = path_join [''./node_modules'', ident, ident @ ''.js'']"

definition load :: "host \<Rightarrow> string \<Rightarrow> world \<Rightarrow> exn + string option" where
  "load h ident w =
     (if indexOf ident prefix = 0 then
        (case readFile h w (modulejs_of (replace ident prefix [])) of
           Inl e \<Rightarrow> Inl e
         | Inr code \<Rightarrow> Inr (Some code))
      else Inr None)"

section \<open>The dev artifact server\<close>

text \<open>
  What the middleware does with one request: it answers (status, headers in the order they
  are set, and the body the read stream delivers, \<open>Inl\<close> when the stream cannot open the
  file), calls \<^verbatim>\<open>next\<close>, or does neither (a request whose \<^verbatim>\<open>url\<close> is not a string).
\<close>

datatype outcome =
    Responded nat "(string \<times> string) list" "exn + string"
  | NextCalled
  | Unanswered

definition middleware :: "host \<Rightarrow> registry \<Rightarrow> world \<Rightarrow> string option \<Rightarrow> outcome" where
  "middleware h r w url =
     (case url of
        None \<Rightarrow> Unanswered
      | Some u \<Rightarrow>
          (let wasmFile = path_basename u
           in case Map_get (wasmMap r) wasmFile of
                None \<Rightarrow> NextCalled
              | Some entry \<Rightarrow>
                  if endsWith (toLowerCase wasmFile) ''.wasm'' then
                    Responded 200
                      [(''Cache-Control'', ''no-cache, no-store, must-revalidate''),
                       (''Content-Type'', ''application/wasm'')]
                      (readFile h w (path entry))
                  else NextCalled))"

section \<open>The asset emitter\<close>

text \<open>\<^verbatim>\<open>wasmMap.forEach\<close> in \<^verbatim>\<open>buildEnd\<close>: a read that fails throws out of the loop.\<close>

fun buildEnd_loop ::
  "host \<Rightarrow> (string \<times> CrateInfoType) list \<Rightarrow> world \<Rightarrow> (exn + unit) \<times> world" where
  "buildEnd_loop h [] w = (Inr (), w)"
| "buildEnd_loop h ((fileName, crate) # rest) w =
     (case readFile h w (path crate) of
        Inl e \<Rightarrow> (Inl e, w)
      | Inr source \<Rightarrow>
          buildEnd_loop h rest (log_event (EmitFile ''asset'' (''assets/'' @ fileName) source) w))"

definition buildEnd :: "host \<Rightarrow> registry \<Rightarrow> world \<Rightarrow> (exn + unit) \<times> world" where
  "buildEnd h r w = buildEnd_loop h (wasmMap r) w"

section \<open>Notions used in the statements\<close>

text \<open>A plain segment is a file or directory name: not empty, not \<^verbatim>\<open>.\<close> or \<^verbatim>\<open>..\<close>, and
  without a slash. \<open>cwd_stack\<close> is the working directory as normalized segments, last one
  first; \<open>rel_concat\<close> is the string \<^verbatim>\<open>path.resolve\<close> builds from relative arguments.\<close>

definition plain :: "string \<Rightarrow> bool" where
  "plain s = (s \<noteq> [] \<and> s \<noteq> ''.'' \<and> s \<noteq> ''..'' \<and> CHR ''/'' \<notin> set s)"

definition cwd_stack :: "string \<Rightarrow> string list" where
  "cwd_stack d = fold (norm_step False) (segments d) []"

definition rel_concat :: "string list \<Rightarrow> string" where
  "rel_concat args = concat (map (\<lambda>a. if a = [] then [] else a @ ''/'') args)"

definition clean :: "string \<Rightarrow> bool" where
  "clean s = (s \<noteq> [] \<and> s \<noteq> ''.'')"




section \<open>A concrete host\<close>

text \<open>
  A host to run the hooks on: the project lives in \<^verbatim>\<open>/proj\<close>; the child process either
  succeeds and leaves the manifest of package \<^verbatim>\<open>demo\<close>, or fails and leaves the files as
  they are; the JSON codec knows the one manifest it meets.
\<close>

definition demo_manifest :: string where
  \<open>demo_manifest = ''{"name":"demo"}''\<close>

definition demo_manifest_module :: string where
  \<open>demo_manifest_module = ''{"name":"demo","type":"module"}''\<close>

definition demo_host :: "bool \<Rightarrow> bool \<Rightarrow> host" where
  "demo_host compiles throws =
     \<lparr>cwd = ''/proj'',
      module_dirname = ''/proj/node_modules/vite-plugin-wasm-pack/dist'',
      chalk_bold = (\<lambda>s. s),
      run_process = (\<lambda>command fs.
         if compiles
         then (\<lparr>error = None, stdout = [], stderr = ''[INFO]: done''\<rparr>,
               fs(''/proj/node_modules/demo/package.json'' \<mapsto> demo_manifest))
         else (\<lparr>error = Some ''Error: Command failed'', stdout = [], stderr = []\<rparr>, fs)),
      parse_json = (\<lambda>s. if s = demo_manifest then Some (JObject [(''name'', JString ''demo'')])
                        else None),
      serialize_json = (\<lambda>j. if j = JObject [(''name'', JString ''demo''),
                                               (''type'', JString ''module'')]
                             then demo_manifest_module else ''null''),
      write_denied = (\<lambda>p. False),
      error_to_string = (\<lambda>e. ''Error''),
      error_hook_throws = throws\<rparr>"

definition demo_world :: world where
  "demo_world =
     \<lparr>files = [''/proj/node_modules/demo/demo.js'' \<mapsto> ''export default init;'',
               ''/proj/node_modules/demo/demo_bg.wasm'' \<mapsto> ''asm''],
      trace = []\<rparr>"

text \<open>A registry whose tables already hold entries under the keys that registering
  \<^verbatim>\<open>b/demo\<close> produces, with other data, and one entry under another key.\<close>

definition stale_registry :: registry where
  "stale_registry =
     \<lparr>wasmMap = [(''demo_bg.wasm'', \<lparr>path = ''/old/demo_bg.wasm'', name = ''old''\<rparr>),
                 (''x_bg.wasm'', \<lparr>path = ''/proj/node_modules/x/x_bg.wasm'', name = ''x''\<rparr>)],
      cratePathLookup = [(''b/demo'', ''old_bg.wasm''), (''x'', ''x_bg.wasm'')],
      crateNameLookup = [(''demo'', ''old_bg.wasm''), (''x'', ''x_bg.wasm'')]\<rparr>"

section \<open>Lemmas: maps and the registry\<close>

lemma map_of_Map_set: "map_of (Map_set k v m) = (map_of m)(k \<mapsto> v)"
  by (induction m) (auto simp: fun_eq_iff)

lemma fst_set_Map_set: "fst ` set (Map_set k v m) = insert k (fst ` set m)"
  by (simp add: dom_map_of_conv_image_fst [symmetric] map_of_Map_set)

lemma keys_Map_set_present: "k \<in> fst ` set m \<Longrightarrow> map fst (Map_set k v m) = map fst m"
proof (induction m)
  case Nil
  then show ?case by simp
next
  case (Cons e m)
  obtain k' v' where e: "e = (k', v')" by (cases e)
  show ?case
  proof (cases "k' = k")
    case True
    then show ?thesis using e by simp
  next
    case False
    then have "k \<in> fst ` set m" using Cons.prems e by auto
    then show ?thesis using Cons.IH e False by simp
  qed
qed

lemma keys_Map_set_absent: "k \<notin> fst ` set m \<Longrightarrow> map fst (Map_set k v m) = map fst m @ [k]"
  by (induction m) auto

lemma distinct_Map_set: "distinct (map fst m) \<Longrightarrow> distinct (map fst (Map_set k v m))"
  by (induction m) (auto simp: fst_set_Map_set)

lemma find_append_rev:
  "find P (xs @ [x]) = (case find P xs of None \<Rightarrow> (if P x then Some x else None) | Some y \<Rightarrow> Some y)"
  by (induction xs) auto

lemma find_rev_Cons:
  "find P (rev (x # xs)) = (case find P (rev xs) of None \<Rightarrow> (if P x then Some x else None) | Some y \<Rightarrow> Some y)"
  by (simp add: find_append_rev)

lemma wasmMap_fold:
  "map_of (wasmMap (fold (register d) ps r)) k =
     (case find (\<lambda>p. wasmFileOf d p = k) (rev ps) of
        None \<Rightarrow> map_of (wasmMap r) k
      | Some p \<Rightarrow> Some \<lparr>path = localPathOf d p, name = crateName d p\<rparr>)"
proof (induction ps arbitrary: r)
  case Nil
  show ?case by simp
next
  case (Cons a ps)
  show ?case
    by (simp only: fold_simps Cons.IH find_rev_Cons)
       (auto simp: register_def map_of_Map_set split: option.splits)
qed

lemma cratePathLookup_fold:
  "map_of (cratePathLookup (fold (register d) ps r)) k =
     (case find (\<lambda>p. p = k) (rev ps) of
        None \<Rightarrow> map_of (cratePathLookup r) k
      | Some p \<Rightarrow> Some (wasmFileOf d p))"
proof (induction ps arbitrary: r)
  case Nil
  show ?case by simp
next
  case (Cons a ps)
  show ?case
    by (simp only: fold_simps Cons.IH find_rev_Cons)
       (auto simp: register_def map_of_Map_set split: option.splits)
qed

lemma crateNameLookup_fold:
  "map_of (crateNameLookup (fold (register d) ps r)) k =
     (case find (\<lambda>p. crateName d p = k) (rev ps) of
        None \<Rightarrow> map_of (crateNameLookup r) k
      | Some p \<Rightarrow> Some (wasmFileOf d p))"
proof (induction ps arbitrary: r)
  case Nil
  show ?case by simp
next
  case (Cons a ps)
  show ?case
    by (simp only: fold_simps Cons.IH find_rev_Cons)
       (auto simp: register_def map_of_Map_set split: option.splits)
qed

lemma distinct_fold:
  "distinct (map fst (wasmMap r)) \<Longrightarrow> distinct (map fst (wasmMap (fold (register d) ps r)))"
  by (induction ps arbitrary: r) (auto simp: register_def distinct_Map_set)

lemma keys_fold:
  "fst ` set (wasmMap (fold (register d) ps r)) = fst ` set (wasmMap r) \<union> wasmFileOf d ` set ps"
  by (induction ps arbitrary: r) (auto simp: register_def fst_set_Map_set)

lemma find_eq_None: "find P xs = None \<longleftrightarrow> (\<forall>x\<in>set xs. \<not> P x)"
  by (induction xs) auto

lemma find_eq_SomeD: "find P xs = Some x \<Longrightarrow> P x \<and> x \<in> set xs"
  by (induction xs) (auto split: if_splits)

section \<open>Lemmas: paths\<close>

lemma segments_nonempty: "segments s \<noteq> []"
  by (induction s) (auto split: list.splits)

lemma segments_append_slash: "segments (a @ CHR ''/'' # b) = segments a @ segments b"
proof (induction a)
  case Nil
  show ?case by simp
next
  case (Cons c a)
  then show ?case
    using segments_nonempty [of a] by (cases "segments a") auto
qed

lemma segments_noslash: "CHR ''/'' \<notin> set a \<Longrightarrow> segments a = [a]"
  by (induction a) auto

lemma segments_slashfree: "s \<in> set (segments p) \<Longrightarrow> CHR ''/'' \<notin> set s"
proof (induction p arbitrary: s)
  case Nil
  then show ?case by simp
next
  case (Cons c p)
  then show ?case
    using segments_nonempty [of p]
    by (cases "segments p") (auto split: if_splits)
qed

lemma segments_join:
  "xs \<noteq> [] \<Longrightarrow> \<forall>s\<in>set xs. CHR ''/'' \<notin> set s \<Longrightarrow> segments (join_segs xs) = xs"
proof (induction xs rule: join_segs.induct)
  case 1
  then show ?case by simp
next
  case (2 s)
  then show ?case by (simp add: segments_noslash)
next
  case (3 s t ts)
  then show ?case by (simp add: segments_append_slash segments_noslash)
qed

lemma join_segs_snoc: "xs \<noteq> [] \<Longrightarrow> join_segs (xs @ [a]) = join_segs xs @ ''/'' @ a"
  by (induction xs rule: join_segs.induct) auto

lemma norm_step_plain: "plain s \<Longrightarrow> norm_step a s st = s # st"
  by (simp add: norm_step_def plain_def)

lemma norm_step_empty: "norm_step a [] st = st"
  by (simp add: norm_step_def)

lemma fold_plain: "\<forall>s\<in>set xs. plain s \<Longrightarrow> fold (norm_step a) xs st = rev xs @ st"
  by (induction xs arbitrary: st) (auto simp: norm_step_plain)

lemma norm_step_stack:
  "CHR ''/'' \<notin> set x \<Longrightarrow> \<forall>s\<in>set st. plain s \<Longrightarrow> \<forall>s\<in>set (norm_step False x st). plain s"
  by (cases st) (auto simp: norm_step_def plain_def)

lemma fold_stack:
  "\<forall>x\<in>set xs. CHR ''/'' \<notin> set x \<Longrightarrow> \<forall>s\<in>set st. plain s \<Longrightarrow>
   \<forall>s\<in>set (fold (norm_step False) xs st). plain s"
proof (induction xs arbitrary: st)
  case Nil
  then show ?case by simp
next
  case (Cons x xs)
  have "\<forall>s\<in>set (norm_step False x st). plain s"
    using Cons.prems by (intro norm_step_stack) auto
  then show ?case
    using Cons.IH [of "norm_step False x st"] Cons.prems by simp
qed

lemma segments_stack:
  "\<forall>s\<in>set st. plain s \<Longrightarrow> \<forall>s\<in>set (fold (norm_step False) (segments p) st). plain s"
  by (rule fold_stack) (auto dest: segments_slashfree)

lemma cwd_stack_plain: "\<forall>s\<in>set (cwd_stack d). plain s"
  unfolding cwd_stack_def by (rule segments_stack) simp

lemma fold_segments_join:
  assumes "\<forall>s\<in>set xs. plain s"
  shows "fold (norm_step a) (segments (join_segs xs)) st = rev xs @ st"
proof (cases xs)
  case Nil
  then show ?thesis by (simp add: norm_step_empty)
next
  case (Cons x xs')
  then have "segments (join_segs xs) = xs"
    using assms by (intro segments_join) (auto simp: plain_def)
  then show ?thesis using assms by (simp add: fold_plain)
qed

lemma join_segs_snoc2: "join_segs (xs @ [a, b]) = join_segs (xs @ [a]) @ ''/'' @ b"
  using join_segs_snoc [of "xs @ [a]" b] by simp

lemma join_segs_snoc3:
  "join_segs (xs @ [a, b, c]) = join_segs (xs @ [a]) @ ''/'' @ b @ ''/'' @ c"
  using join_segs_snoc [of "xs @ [a, b]" c] join_segs_snoc [of "xs @ [a]" b] by simp

lemma resolve_acc_abs:
  "isAbsolute d \<Longrightarrow> \<exists>rp. resolve_acc (ps @ [d]) acc = (rp, True)"
  by (induction ps arbitrary: acc) (auto simp: isAbsolute_def)

lemma path_resolve_form:
  assumes "isAbsolute d"
  shows "\<exists>st. (\<forall>s\<in>set st. plain s) \<and> path_resolve d args = CHR ''/'' # join_segs (rev st)"
proof -
  obtain rp where rp: "resolve_acc (rev args @ [d]) [] = (rp, True)"
    using resolve_acc_abs [OF assms] by blast
  have "\<forall>s\<in>set (fold (norm_step False) (segments rp) []). plain s"
    by (rule segments_stack) simp
  then show ?thesis
    using rp by (auto simp: path_resolve_def normalizeString_def)
qed

lemma basename_snoc_plain:
  assumes "plain t"
  shows "path_basename (b @ CHR ''/'' # t) = t"
proof -
  have ns: "\<forall>c\<in>set (rev t). c \<noteq> CHR ''/''" and ne: "rev t \<noteq> []"
    using assms by (auto simp: plain_def)
  then obtain c cs where r: "rev t = c # cs"
    by (cases "rev t") auto
  have d: "dropWhile (\<lambda>c. c = CHR ''/'') (rev t @ CHR ''/'' # rev b) = rev t @ CHR ''/'' # rev b"
    using ns r by simp
  have "takeWhile (\<lambda>c. c \<noteq> CHR ''/'') (rev t @ CHR ''/'' # rev b) = rev t"
    using ns by (simp add: takeWhile_tail)
  then show ?thesis
    using d by (simp add: path_basename_def)
qed

lemma basename_form:
  "\<forall>s\<in>set st. plain s \<Longrightarrow>
   path_basename (CHR ''/'' # join_segs (rev st)) = (case st of [] \<Rightarrow> [] | t # ts \<Rightarrow> t)"
proof (cases st)
  case Nil
  then show ?thesis by (simp add: path_basename_def)
next
  case (Cons t ts)
  assume "\<forall>s\<in>set st. plain s"
  then have "plain t" using Cons by simp
  then show ?thesis
    using Cons basename_snoc_plain [of t "[]"] basename_snoc_plain [of t "CHR ''/'' # join_segs (rev ts)"]
    by (cases "ts = []") (simp_all add: join_segs_snoc)
qed

lemma crateName_plain:
  assumes "isAbsolute d"
  shows "crateName d p = [] \<or> plain (crateName d p)"
proof -
  obtain st where st: "\<forall>s\<in>set st. plain s" "path_resolve d [p] = CHR ''/'' # join_segs (rev st)"
    using path_resolve_form [OF assms] by blast
  show ?thesis
    using st basename_form [OF st(1)] by (cases st) (auto simp: crateName_def)
qed

lemma resolve_acc_rel:
  "isAbsolute d \<Longrightarrow> \<forall>a\<in>set ps. \<not> isAbsolute a \<Longrightarrow>
   resolve_acc (ps @ [d]) acc = (d @ ''/'' @ rel_concat (rev ps) @ acc, True)"
proof (induction ps arbitrary: acc)
  case Nil
  then show ?case by (simp add: rel_concat_def isAbsolute_def)
next
  case (Cons p ps)
  then show ?case by (simp add: rel_concat_def)
qed

lemma fold_segments_rel_concat:
  "fold (norm_step a) (segments (rel_concat args)) st
     = fold (norm_step a) (concat (map segments args)) st"
proof (induction args arbitrary: st)
  case Nil
  show ?case by (simp add: rel_concat_def norm_step_empty)
next
  case (Cons x xs)
  have "rel_concat (x # xs) = (if x = [] then rel_concat xs else x @ CHR ''/'' # rel_concat xs)"
    by (simp add: rel_concat_def)
  then show ?case
    using Cons.IH by (simp add: segments_append_slash norm_step_empty)
qed

lemma resolve_rel:
  assumes "isAbsolute d" and "\<forall>a\<in>set args. \<not> isAbsolute a"
  shows "path_resolve d args =
     CHR ''/'' # join_segs (rev (fold (norm_step False) (concat (map segments args)) (cwd_stack d)))"
proof -
  have "resolve_acc (rev args @ [d]) [] = (d @ CHR ''/'' # rel_concat args, True)"
    using resolve_acc_rel [OF assms(1), of "rev args" "[]"] assms(2) by simp
  then show ?thesis
    by (simp add: path_resolve_def normalizeString_def segments_append_slash
          fold_segments_rel_concat cwd_stack_def)
qed

lemma resolve_abs:
  assumes "isAbsolute q"
  shows "path_resolve d [q] = CHR ''/'' # join_segs (rev (fold (norm_step False) (segments q) []))"
proof -
  have "resolve_acc [q, d] [] = (q @ ''/'', True)"
    using assms by (simp add: isAbsolute_def)
  moreover have "segments (q @ ''/'') = segments q @ [[]]"
    using segments_append_slash [of q "[]"] by simp
  ultimately show ?thesis
    by (simp add: path_resolve_def normalizeString_def norm_step_empty)
qed

lemma resolve_normal_form:
  assumes "\<forall>s\<in>set st. plain s"
  shows "path_resolve d [CHR ''/'' # join_segs (rev st)] = CHR ''/'' # join_segs (rev st)"
  using assms resolve_abs [of "CHR ''/'' # join_segs (rev st)" d]
  by (simp add: isAbsolute_def fold_segments_join norm_step_empty)

lemma resolve_under_root:
  assumes "\<forall>s\<in>set st. plain s"
  shows "path_resolve d [(CHR ''/'' # join_segs (rev st)) @ CHR ''/'' # x] =
     CHR ''/'' # join_segs (rev (fold (norm_step False) (segments x) st))"
  using assms resolve_abs [of "(CHR ''/'' # join_segs (rev st)) @ CHR ''/'' # x" d]
  by (simp add: isAbsolute_def segments_append_slash fold_segments_join norm_step_empty)

lemma resolve_idem:
  assumes "isAbsolute d"
  shows "path_resolve d [path_resolve d args] = path_resolve d args"
proof -
  obtain st where "\<forall>s\<in>set st. plain s" "path_resolve d args = CHR ''/'' # join_segs (rev st)"
    using path_resolve_form [OF assms] by blast
  then show ?thesis by (simp add: resolve_normal_form)
qed

lemma plain_node_modules: "plain ''node_modules''"
  by (simp add: plain_def)

lemma plain_suffix:
  "CHR ''/'' \<notin> set a \<Longrightarrow> CHR ''/'' \<notin> set b \<Longrightarrow> 3 \<le> length b \<Longrightarrow> plain (a @ b)"
  by (auto simp: plain_def dest: arg_cong [where f = length])

lemma cacheRoot_form:
  "isAbsolute d \<Longrightarrow>
   path_resolve d [''node_modules''] = CHR ''/'' # join_segs (rev (''node_modules'' # cwd_stack d))"
  using plain_node_modules
  by (simp add: resolve_rel isAbsolute_def segments_noslash norm_step_plain)

lemma resolve_in_cache:
  assumes "isAbsolute d" and "plain f" and "nm = [] \<or> plain nm"
  shows "path_resolve d [''node_modules'', nm, f] =
     path_resolve d [''node_modules''] @ (if nm = [] then [] else CHR ''/'' # nm) @ CHR ''/'' # f"
proof -
  have na: "\<not> isAbsolute nm" "\<not> isAbsolute f" "\<not> isAbsolute ''node_modules''"
    using assms by (auto simp: isAbsolute_def plain_def) (metis hd_in_set)+
  have f: "segments f = [f]" using assms(2) by (simp add: segments_noslash plain_def)
  show ?thesis
  proof (cases "nm = []")
    case True
    then show ?thesis
      using assms(1,2) na f plain_node_modules
      by (simp add: resolve_rel cacheRoot_form segments_noslash norm_step_plain norm_step_empty
            join_segs_snoc2)
  next
    case False
    then have "plain nm" using assms(3) by simp
    moreover from this have "segments nm = [nm]" by (simp add: segments_noslash plain_def)
    ultimately show ?thesis
      using False assms(1,2) na f plain_node_modules
      by (simp add: resolve_rel cacheRoot_form segments_noslash norm_step_plain join_segs_snoc3)
  qed
qed


lemma hd_join_segs: "x \<noteq> [] \<Longrightarrow> hd (join_segs (x # xs)) = hd x"
  by (cases xs) auto



lemma norm_step_clean:
  "\<forall>s\<in>set st. clean s \<Longrightarrow> \<forall>s\<in>set (norm_step a x st). clean s"
  by (cases st) (auto simp: norm_step_def clean_def)

lemma fold_clean:
  "\<forall>s\<in>set st. clean s \<Longrightarrow> \<forall>s\<in>set (fold (norm_step a) xs st). clean s"
proof (induction xs arbitrary: st)
  case Nil
  then show ?case by simp
next
  case (Cons x xs)
  then show ?case using norm_step_clean [of st a x] by simp
qed

lemma norm_step_slashfree:
  "CHR ''/'' \<notin> set x \<Longrightarrow> \<forall>s\<in>set st. CHR ''/'' \<notin> set s \<Longrightarrow>
   \<forall>s\<in>set (norm_step a x st). CHR ''/'' \<notin> set s"
  by (cases st) (auto simp: norm_step_def)

lemma fold_slashfree:
  "\<forall>x\<in>set xs. CHR ''/'' \<notin> set x \<Longrightarrow> \<forall>s\<in>set st. CHR ''/'' \<notin> set s \<Longrightarrow>
   \<forall>s\<in>set (fold (norm_step a) xs st). CHR ''/'' \<notin> set s"
proof (induction xs arbitrary: st)
  case Nil
  then show ?case by simp
next
  case (Cons x xs)
  have "\<forall>s\<in>set (norm_step a x st). CHR ''/'' \<notin> set s"
    using Cons.prems by (intro norm_step_slashfree) auto
  then show ?case using Cons.IH [of "norm_step a x st"] Cons.prems by simp
qed

lemma norm_step_skip: "x = [] \<or> x = ''.'' \<Longrightarrow> norm_step a x st = st"
  by (auto simp: norm_step_def)

lemma norm_step_push: "x \<noteq> [] \<Longrightarrow> x \<noteq> ''.'' \<Longrightarrow> x \<noteq> ''..'' \<Longrightarrow> norm_step a x st = x # st"
  by (simp add: norm_step_def)

lemma norm_step_up_Nil: "norm_step a ''..'' [] = (if a then [''..''] else [])"
  by (simp add: norm_step_def)

lemma norm_step_up_Cons:
  "norm_step a ''..'' (t # ts) =
     (if t \<noteq> ''..'' then ts else if a then ''..'' # t # ts else t # ts)"
  by (simp add: norm_step_def)

text \<open>Normalizing a relative path first and resolving it afterwards gives what resolving
  the path as it stands gives.\<close>

lemma fold_norm_rel:
  "fold (norm_step a) (rev (fold (norm_step True) xs [])) st = fold (norm_step a) xs st"
proof (induction xs rule: rev_induct)
  case Nil
  show ?case by simp
next
  case (snoc x xs)
  let ?r = "fold (norm_step True) xs []"
  have cl: "\<forall>s\<in>set ?r. clean s" by (rule fold_clean) simp
  show ?case
  proof (cases "x = [] \<or> x = ''.''")
    case True
    then show ?thesis using snoc.IH by (simp add: norm_step_skip)
  next
    case False
    note nx = this
    show ?thesis
    proof (cases "x = ''..''")
      case False
      then show ?thesis using nx snoc.IH by (simp add: norm_step_push)
    next
      case True
      show ?thesis
      proof (cases ?r)
        case Nil
        then show ?thesis using True snoc.IH by (simp add: norm_step_up_Nil)
      next
        case (Cons t ts)
        show ?thesis
        proof (cases "t = ''..''")
          case True
          then show ?thesis
            using snoc.IH Cons \<open>x = ''..''\<close> by (simp add: norm_step_up_Cons)
        next
          case False
          have "clean t" using cl Cons by simp
          then have push: "\<And>u. norm_step a t u = t # u"
            using False by (simp add: norm_step_push clean_def)
          have "fold (norm_step a) xs st = t # fold (norm_step a) (rev ts) st"
            using snoc.IH Cons push by simp
          then show ?thesis
            using Cons False \<open>x = ''..''\<close> by (simp add: norm_step_up_Cons)
        qed
      qed
    qed
  qed
qed

lemma segments_append_noslash:
  "CHR ''/'' \<notin> set b \<Longrightarrow> segments (a @ b) = butlast (segments a) @ [last (segments a) @ b]"
proof (induction a)
  case Nil
  then show ?case by (simp add: segments_noslash)
next
  case (Cons c a)
  then show ?case
    using segments_nonempty [of a] segments_nonempty [of "a @ b"]
    by (cases "segments a"; cases "segments (a @ b)") (auto split: if_splits)
qed

lemma indexOf_from_range: "indexOf_from i s pat = - 1 \<or> int i \<le> indexOf_from i s pat"
proof (induction s arbitrary: i)
  case Nil
  show ?case by simp
next
  case (Cons c s)
  show ?case using Cons [of "Suc i"] by auto
qed

lemma indexOf_zero: "indexOf s pat = 0 \<longleftrightarrow> startsWith s pat"
proof (cases s)
  case Nil
  then show ?thesis by (auto simp: indexOf_def startsWith_def)
next
  case (Cons c cs)
  then show ?thesis
    using indexOf_from_range [of 1 cs pat] by (auto simp: indexOf_def)
qed

lemma replace_prefix: "startsWith s pat \<Longrightarrow> replace s pat [] = drop (length pat) s"
  by (cases s) (auto simp: startsWith_def)

lemma modulejs_fold:
  "fold (norm_step a) (segments (join_segs (filter (\<lambda>a. a \<noteq> []) [''./node_modules'', nm, nm @ ''.js''])))
     st
   = fold (norm_step a) (segments (nm @ CHR ''/'' # nm @ ''.js'')) (''node_modules'' # st)"
proof (cases "nm = []")
  case True
  then show ?thesis
    by (simp add: norm_step_skip norm_step_push)
next
  case False
  have "segments (''./node_modules'' @ CHR ''/'' # nm @ CHR ''/'' # nm @ ''.js'')
      = segments ''./node_modules'' @ segments (nm @ CHR ''/'' # nm @ ''.js'')"
    by (rule segments_append_slash)
  then show ?thesis
    using False by (simp add: norm_step_skip norm_step_push)
qed

lemma modulejs_last_plain:
  "\<exists>xs l. segments (nm @ CHR ''/'' # nm @ ''.js'') = xs @ [l] \<and> plain l"
proof -
  let ?a = "nm @ CHR ''/'' # nm"
  have "segments (?a @ ''.js'') = butlast (segments ?a) @ [last (segments ?a) @ ''.js'']"
    by (rule segments_append_noslash) simp
  moreover have "CHR ''/'' \<notin> set (last (segments ?a))"
    using segments_slashfree [of "last (segments ?a)" ?a] segments_nonempty [of ?a] by simp
  then have "plain (last (segments ?a) @ ''.js'')"
    by (intro plain_suffix) simp_all
  ultimately show ?thesis by auto
qed

lemma join_segs_snoc_nonempty: "l \<noteq> [] \<Longrightarrow> join_segs (ys @ [l]) \<noteq> []"
  by (cases "ys = []") (simp_all add: join_segs_snoc)

lemma path_normalize_rel:
  assumes "J \<noteq> []" and "\<not> isAbsolute J" and "last J \<noteq> CHR ''/''"
    and "normalizeString J True \<noteq> []"
  shows "path_normalize J = normalizeString J True"
  using assms by (simp add: path_normalize_def Let_def)

lemma modulejs_form:
  "\<exists>t ts. (\<forall>s\<in>set (t # ts). clean s \<and> CHR ''/'' \<notin> set s) \<and>
     fold (norm_step True) (segments (join_segs (filter (\<lambda>a. a \<noteq> []) [''./node_modules'', nm, nm @ ''.js''])))
       [] = t # ts \<and>
     modulejs_of nm = join_segs (rev (t # ts))"
proof -
  define J where "J = join_segs (filter (\<lambda>a. a \<noteq> []) [''./node_modules'', nm, nm @ ''.js''])"
  define T where "T = fold (norm_step True) (segments J) []"
  obtain xs l where xs: "segments (nm @ CHR ''/'' # nm @ ''.js'') = xs @ [l]" "plain l"
    using modulejs_last_plain by blast
  have "T = fold (norm_step True) (segments (nm @ CHR ''/'' # nm @ ''.js'')) [''node_modules'']"
    unfolding T_def J_def by (rule modulejs_fold)
  then have T: "T = l # fold (norm_step True) xs [''node_modules'']"
    using xs by (simp add: norm_step_plain)
  have cl: "\<forall>s\<in>set T. clean s" unfolding T_def by (rule fold_clean) simp
  have sf: "\<forall>s\<in>set T. CHR ''/'' \<notin> set s"
    unfolding T_def by (rule fold_slashfree) (auto dest: segments_slashfree)
  have J1: "J \<noteq> []" and J2: "\<not> isAbsolute J" and J3: "last J \<noteq> CHR ''/''"
    unfolding J_def by (auto simp: isAbsolute_def)
  have n: "normalizeString J True = join_segs (rev T)"
    by (simp add: normalizeString_def T_def)
  have "l \<noteq> []" using xs(2) by (simp add: plain_def)
  then have ne: "join_segs (rev T) \<noteq> []"
    unfolding T by (simp add: join_segs_snoc_nonempty)
  have "modulejs_of nm = path_normalize J"
    using J1 unfolding J_def by (simp add: modulejs_of_def path_join_def Let_def)
  also have "\<dots> = join_segs (rev T)"
    using path_normalize_rel [OF J1 J2 J3] n ne by simp
  finally have m: "modulejs_of nm = join_segs (rev T)" .
  show ?thesis
  proof (intro exI conjI)
    show "\<forall>s\<in>set (l # fold (norm_step True) xs [''node_modules'']). clean s \<and> CHR ''/'' \<notin> set s"
      using cl sf unfolding T by blast
    show "fold (norm_step True) (segments (join_segs (filter (\<lambda>a. a \<noteq> []) [''./node_modules'', nm, nm @ ''.js'']))) []
        = l # fold (norm_step True) xs [''node_modules'']"
      using T unfolding T_def J_def .
    show "modulejs_of nm = join_segs (rev (l # fold (norm_step True) xs [''node_modules'']))"
      using m unfolding T .
  qed
qed

lemma modulejs_resolve:
  assumes "isAbsolute d"
  shows "path_resolve d [modulejs_of nm]
     = path_resolve d [path_resolve d [''node_modules''] @ ''/'' @ nm @ ''/'' @ nm @ ''.js'']"
proof -
  let ?J = "join_segs (filter (\<lambda>a. a \<noteq> []) [''./node_modules'', nm, nm @ ''.js''])"
  let ?X = "nm @ CHR ''/'' # nm @ ''.js''"
  obtain t ts where T: "\<forall>s\<in>set (t # ts). clean s \<and> CHR ''/'' \<notin> set s"
      "fold (norm_step True) (segments ?J) [] = t # ts"
      "modulejs_of nm = join_segs (rev (t # ts))"
    using modulejs_form by blast
  obtain x xs where r: "rev (t # ts) = x # xs"
    by (cases "rev (t # ts)") auto
  then have "x \<in> set (t # ts)" by (metis list.set_intros(1) set_rev)
  then have x1: "x \<noteq> []" and x2: "CHR ''/'' \<notin> set x"
    using T(1) by (auto simp: clean_def)
  then have "hd x \<noteq> CHR ''/''" by (metis hd_in_set)
  note x = x1 this
  have rel: "\<not> isAbsolute (modulejs_of nm)"
    using T(3) r x hd_join_segs [of x xs] by (simp add: isAbsolute_def)
  have seg: "segments (modulejs_of nm) = rev (t # ts)"
    unfolding T(3) using T(1) by (intro segments_join) auto
  have "path_resolve d [modulejs_of nm]
      = CHR ''/'' # join_segs (rev (fold (norm_step False) (rev (t # ts)) (cwd_stack d)))"
    using assms rel seg by (simp add: resolve_rel)
  also have "fold (norm_step False) (rev (t # ts)) (cwd_stack d)
      = fold (norm_step False) (segments ?J) (cwd_stack d)"
    using fold_norm_rel [of False "segments ?J" "cwd_stack d"] T(2) by simp
  also have "\<dots> = fold (norm_step False) (segments ?X) (''node_modules'' # cwd_stack d)"
    by (rule modulejs_fold)
  finally have lhs: "path_resolve d [modulejs_of nm]
      = CHR ''/'' # join_segs (rev (fold (norm_step False) (segments ?X) (''node_modules'' # cwd_stack d)))" .
  have "\<forall>s\<in>set (''node_modules'' # cwd_stack d). plain s"
    using cwd_stack_plain plain_node_modules by simp
  then have "path_resolve d [(CHR ''/'' # join_segs (rev (''node_modules'' # cwd_stack d))) @ CHR ''/'' # ?X]
      = CHR ''/'' # join_segs (rev (fold (norm_step False) (segments ?X) (''node_modules'' # cwd_stack d)))"
    by (rule resolve_under_root)
  then show ?thesis
    using lhs assms by (simp add: cacheRoot_form)
qed

lemma plain_path_normal:
  assumes "isAbsolute d" and "plain nm" and "plain f"
  shows "path_resolve d [path_resolve d [''node_modules''] @ ''/'' @ nm @ ''/'' @ f]
       = path_resolve d [''node_modules''] @ ''/'' @ nm @ ''/'' @ f"
proof -
  have st: "\<forall>s\<in>set (''node_modules'' # cwd_stack d). plain s"
    using cwd_stack_plain plain_node_modules by simp
  have seg: "segments (nm @ CHR ''/'' # f) = [nm, f]"
    using assms(2,3) by (simp add: segments_append_slash segments_noslash plain_def)
  show ?thesis
    using resolve_under_root [OF st, of d "nm @ CHR ''/'' # f"] assms seg
    by (simp add: cacheRoot_form norm_step_plain join_segs_snoc3)
qed

lemma find_same_key:
  assumes "p \<in> set ps"
  shows "\<exists>q. find (\<lambda>q. f q = f p) (rev ps) = Some q \<and> f q = f p"
proof (cases "find (\<lambda>q. f q = f p) (rev ps)")
  case None
  then have "\<forall>x\<in>set ps. f x \<noteq> f p" by (simp add: find_eq_None)
  then show ?thesis using assms by blast
next
  case (Some q)
  then show ?thesis using find_eq_SomeD [OF Some] by simp
qed

lemma wasmFileOf_inj: "wasmFileOf d q = wasmFileOf d p \<longleftrightarrow> crateName d q = crateName d p"
  by (simp add: wasmFileOf_def)

lemma plain_wasmFile: "nm = [] \<or> plain nm \<Longrightarrow> plain (nm @ ''_bg.wasm'')"
  by (intro plain_suffix) (auto simp: plain_def)

lemma crateName_segments:
  assumes "isAbsolute d"
  shows "\<exists>segs. (\<forall>s\<in>set segs. plain s) \<and> path_resolve d [p] = CHR ''/'' # join_segs segs
            \<and> crateName d p = (if segs = [] then [] else last segs)"
proof -
  obtain st where st: "\<forall>s\<in>set st. plain s" "path_resolve d [p] = CHR ''/'' # join_segs (rev st)"
    using path_resolve_form [OF assms] by blast
  have "crateName d p = (if rev st = [] then [] else last (rev st))"
    using st basename_form [OF st(1)] by (cases st) (auto simp: crateName_def)
  then show ?thesis using st by (intro exI [of _ "rev st"]) simp
qed

lemma localPath_form:
  assumes "isAbsolute d"
  shows "localPathOf d p =
     path_resolve d [''node_modules'']
       @ (if crateName d p = [] then [] else CHR ''/'' # crateName d p)
       @ CHR ''/'' # crateName d p @ ''_bg.wasm''"
  unfolding localPathOf_def wasmFileOf_def
  using crateName_plain [OF assms, of p]
  by (intro resolve_in_cache assms plain_wasmFile)

section \<open>Lemmas: the hooks\<close>














lemma set_Map_set: "set (Map_set k v m) \<subseteq> insert (k, v) (set m)"
  by (induction m) (auto split: if_splits)

lemma wasmMap_entries:
  "e \<in> set (wasmMap (fold (register d) ps r)) \<Longrightarrow>
   e \<in> set (wasmMap r) \<or>
   (\<exists>q\<in>set ps. e = (wasmFileOf d q, \<lparr>path = localPathOf d q, name = crateName d q\<rparr>))"
proof (induction ps arbitrary: r)
  case Nil
  then show ?case by simp
next
  case (Cons p ps)
  from Cons.IH [of "register d p r"] Cons.prems
  have "e \<in> set (wasmMap (register d p r)) \<or>
      (\<exists>q\<in>set ps. e = (wasmFileOf d q, \<lparr>path = localPathOf d q, name = crateName d q\<rparr>))"
    by simp
  moreover have "set (wasmMap (register d p r))
      \<subseteq> insert (wasmFileOf d p, \<lparr>path = localPathOf d p, name = crateName d p\<rparr>) (set (wasmMap r))"
    by (simp add: register_def set_Map_set)
  ultimately show ?case by auto
qed

lemma readFile_localPath:
  assumes "isAbsolute (cwd h)"
  shows "readFile h w (localPathOf (cwd h) q) =
     (case files w (localPathOf (cwd h) q) of
        None \<Rightarrow> Inl (ENOENT (localPathOf (cwd h) q))
      | Some content \<Rightarrow> Inr content)"
  by (simp add: readFile_def localPathOf_def resolve_idem [OF assms] split: option.splits)

lemma buildEnd_loop_ok:
  "\<forall>e\<in>set m. readFile h w (path (snd e)) = Inr (content (fst e)) \<Longrightarrow>
   buildEnd_loop h m w =
     (Inr (), w\<lparr>trace := trace w
                @ map (\<lambda>e. EmitFile ''asset'' (''assets/'' @ fst e) (content (fst e))) m\<rparr>)"
proof (induction m arbitrary: w)
  case Nil
  show ?case by simp
next
  case (Cons e m)
  obtain f c where e: "e = (f, c)" by (cases e)
  let ?w = "log_event (EmitFile ''asset'' (''assets/'' @ f) (content f)) w"
  have "\<forall>e\<in>set m. readFile h ?w (path (snd e)) = Inr (content (fst e))"
    using Cons.prems by (simp add: readFile_def log_event_def)
  from Cons.IH [OF this] show ?case
    using Cons.prems e by (simp add: log_event_def)
qed

lemma wasm_key_suffix: "endsWith (toLowerCase (nm @ ''_bg.wasm'')) ''.wasm''"
  by (simp add: endsWith_def toLowerCase_def lower_char_def)

lemma localPath_name: "crateName d q' = crateName d q \<Longrightarrow> localPathOf d q' = localPathOf d q"
  by (simp add: localPathOf_def wasmFileOf_def)

lemmas path_eval = path_resolve_def normalizeString_def norm_step_def isAbsolute_def
  path_basename_def path_join_def path_normalize_def path_dirname_def


section \<open>Claims\<close>

text \<open>
  C5. \<^verbatim>\<open>resolveId(id)\<close> returns the prefixed marker identifier, prefix followed by the
  identifier, exactly when the identifier is the derived name of a registered package, and
  null otherwise; with an empty registry every identifier resolves to null.
\<close>

theorem resolveId_iff:
  "resolveId (vitePluginWasmPack d crates) ident =
     (if ident \<in> crateName d ` set (cratePaths crates) then Some (prefix @ ident) else None)
   \<and> resolveId (vitePluginWasmPack d (Crates [])) ident = None"
  by (auto simp: resolveId_def Map_has_def vitePluginWasmPack_def crateNameLookup_fold
        empty_registry_def find_eq_None cratePaths_def dest!: find_eq_SomeD split: option.splits)

theorem resolveId_iff_witness:
  "resolveId (vitePluginWasmPack ''/proj'' (OneCrate ''./crates/demo'')) ''demo''
     = Some ''@wasm-pack@demo''
   \<and> resolveId (vitePluginWasmPack ''/proj'' (OneCrate ''./crates/demo'')) ''./crates/demo'' = None
   \<and> resolveId (vitePluginWasmPack ''/proj'' (Crates [])) ''demo'' = None"
  using resolveId_iff [of "''/proj''" "OneCrate ''./crates/demo''" "''demo''"]
    resolveId_iff [of "''/proj''" "OneCrate ''./crates/demo''" "''./crates/demo''"]
  by (simp add: cratePaths_def crateName_def path_basename_def path_resolve_def
        normalizeString_def norm_step_def isAbsolute_def prefix_def)

text \<open>
  C10. Registry construction accepts two locations with the same derived name: it is a total
  function. One registration, on any registry, makes each of its three keys map to its own
  data, whatever the tables held under those keys before, and leaves every other key as it
  was; a key that was present keeps its place and no second entry is added, a new key goes
  to the end. So after a run of registrations on any registry every key maps to the data of
  the last registration of the run that produced it (the first match in the reversed list
  of locations), and to what the registry held before when none did; for the plugin, which
  starts from empty tables, no key occurs twice.
\<close>

theorem later_registration_overwrites:
  "Map_get (wasmMap (register d p r)) k =
     (if k = wasmFileOf d p then Some \<lparr>path = localPathOf d p, name = crateName d p\<rparr>
      else Map_get (wasmMap r) k) \<and>
   Map_get (cratePathLookup (register d p r)) k =
     (if k = p then Some (wasmFileOf d p) else Map_get (cratePathLookup r) k) \<and>
   Map_get (crateNameLookup (register d p r)) k =
     (if k = crateName d p then Some (wasmFileOf d p) else Map_get (crateNameLookup r) k) \<and>
   map fst (wasmMap (register d p r)) =
     (if Map_has (wasmMap r) (wasmFileOf d p) then map fst (wasmMap r)
      else map fst (wasmMap r) @ [wasmFileOf d p]) \<and>
   Map_get (wasmMap (fold (register d) ps r)) k =
     (case find (\<lambda>q. wasmFileOf d q = k) (rev ps) of
        None \<Rightarrow> Map_get (wasmMap r) k
      | Some q \<Rightarrow> Some \<lparr>path = localPathOf d q, name = crateName d q\<rparr>) \<and>
   Map_get (cratePathLookup (fold (register d) ps r)) k =
     (case find (\<lambda>q. q = k) (rev ps) of
        None \<Rightarrow> Map_get (cratePathLookup r) k
      | Some q \<Rightarrow> Some (wasmFileOf d q)) \<and>
   Map_get (crateNameLookup (fold (register d) ps r)) k =
     (case find (\<lambda>q. crateName d q = k) (rev ps) of
        None \<Rightarrow> Map_get (crateNameLookup r) k
      | Some q \<Rightarrow> Some (wasmFileOf d q)) \<and>
   Map_get (wasmMap (vitePluginWasmPack d crates)) k =
     map_option (\<lambda>p. \<lparr>path = localPathOf d p, name = crateName d p\<rparr>)
       (find (\<lambda>p. wasmFileOf d p = k) (rev (cratePaths crates))) \<and>
   Map_get (cratePathLookup (vitePluginWasmPack d crates)) k =
     map_option (wasmFileOf d) (find (\<lambda>p. p = k) (rev (cratePaths crates))) \<and>
   Map_get (crateNameLookup (vitePluginWasmPack d crates)) k =
     map_option (wasmFileOf d) (find (\<lambda>p. crateName d p = k) (rev (cratePaths crates))) \<and>
   distinct (map fst (wasmMap (vitePluginWasmPack d crates)))"
proof -
  have step: "Map_get (wasmMap (register d p r)) k =
       (if k = wasmFileOf d p then Some \<lparr>path = localPathOf d p, name = crateName d p\<rparr>
        else Map_get (wasmMap r) k)"
      "Map_get (cratePathLookup (register d p r)) k =
       (if k = p then Some (wasmFileOf d p) else Map_get (cratePathLookup r) k)"
      "Map_get (crateNameLookup (register d p r)) k =
       (if k = crateName d p then Some (wasmFileOf d p) else Map_get (crateNameLookup r) k)"
    by (simp_all add: Map_get_def register_def map_of_Map_set)
  have "Map_has (wasmMap r) (wasmFileOf d p) \<longleftrightarrow> wasmFileOf d p \<in> fst ` set (wasmMap r)"
    by (simp add: Map_has_def dom_map_of_conv_image_fst [symmetric] domIff)
  then have place: "map fst (wasmMap (register d p r)) =
       (if Map_has (wasmMap r) (wasmFileOf d p) then map fst (wasmMap r)
        else map fst (wasmMap r) @ [wasmFileOf d p])"
    by (simp add: register_def keys_Map_set_present keys_Map_set_absent)
  have run: "Map_get (wasmMap (fold (register d) ps r)) k =
       (case find (\<lambda>q. wasmFileOf d q = k) (rev ps) of
          None \<Rightarrow> Map_get (wasmMap r) k
        | Some q \<Rightarrow> Some \<lparr>path = localPathOf d q, name = crateName d q\<rparr>)"
      "Map_get (cratePathLookup (fold (register d) ps r)) k =
       (case find (\<lambda>q. q = k) (rev ps) of
          None \<Rightarrow> Map_get (cratePathLookup r) k
        | Some q \<Rightarrow> Some (wasmFileOf d q))"
      "Map_get (crateNameLookup (fold (register d) ps r)) k =
       (case find (\<lambda>q. crateName d q = k) (rev ps) of
          None \<Rightarrow> Map_get (crateNameLookup r) k
        | Some q \<Rightarrow> Some (wasmFileOf d q))"
    by (simp_all add: Map_get_def wasmMap_fold cratePathLookup_fold crateNameLookup_fold
          split: option.splits)
  have plugin: "Map_get (wasmMap (vitePluginWasmPack d crates)) k =
       map_option (\<lambda>p. \<lparr>path = localPathOf d p, name = crateName d p\<rparr>)
         (find (\<lambda>p. wasmFileOf d p = k) (rev (cratePaths crates)))"
      "Map_get (cratePathLookup (vitePluginWasmPack d crates)) k =
       map_option (wasmFileOf d) (find (\<lambda>p. p = k) (rev (cratePaths crates)))"
      "Map_get (crateNameLookup (vitePluginWasmPack d crates)) k =
       map_option (wasmFileOf d) (find (\<lambda>p. crateName d p = k) (rev (cratePaths crates)))"
      "distinct (map fst (wasmMap (vitePluginWasmPack d crates)))"
    by (simp_all add: Map_get_def vitePluginWasmPack_def wasmMap_fold cratePathLookup_fold
          crateNameLookup_fold distinct_fold empty_registry_def split: option.splits)
  show ?thesis
    using step place run plugin by (intro conjI)
qed

theorem later_registration_overwrites_witness:
  "Map_get (wasmMap stale_registry) ''demo_bg.wasm''
     = Some \<lparr>path = ''/old/demo_bg.wasm'', name = ''old''\<rparr>
   \<and> Map_get (wasmMap (register ''/proj'' ''b/demo'' stale_registry)) ''demo_bg.wasm''
     = Some \<lparr>path = ''/proj/node_modules/demo/demo_bg.wasm'', name = ''demo''\<rparr>
   \<and> Map_get (wasmMap (register ''/proj'' ''b/demo'' stale_registry)) ''x_bg.wasm''
     = Some \<lparr>path = ''/proj/node_modules/x/x_bg.wasm'', name = ''x''\<rparr>
   \<and> map fst (wasmMap (register ''/proj'' ''b/demo'' stale_registry))
     = [''demo_bg.wasm'', ''x_bg.wasm'']
   \<and> Map_get (cratePathLookup stale_registry) ''b/demo'' = Some ''old_bg.wasm''
   \<and> Map_get (cratePathLookup (register ''/proj'' ''b/demo'' stale_registry)) ''b/demo''
     = Some ''demo_bg.wasm''
   \<and> Map_get (crateNameLookup stale_registry) ''demo'' = Some ''old_bg.wasm''
   \<and> Map_get (crateNameLookup (register ''/proj'' ''b/demo'' stale_registry)) ''demo''
     = Some ''demo_bg.wasm''
   \<and> Map_get (wasmMap (fold (register ''/proj'') [''a/demo'', ''b/demo''] stale_registry))
       ''demo_bg.wasm''
     = Some \<lparr>path = ''/proj/node_modules/demo/demo_bg.wasm'', name = ''demo''\<rparr>
   \<and> Map_get (wasmMap (vitePluginWasmPack ''/proj'' (Crates [''a/demo'', ''b/demo''])))
       ''demo_bg.wasm''
     = Some \<lparr>path = ''/proj/node_modules/demo/demo_bg.wasm'', name = ''demo''\<rparr>
   \<and> Map_get (crateNameLookup (vitePluginWasmPack ''/proj'' (Crates [''a/demo'', ''b/demo''])))
       ''demo'' = Some ''demo_bg.wasm''
   \<and> length (wasmMap (vitePluginWasmPack ''/proj'' (Crates [''a/demo'', ''b/demo'']))) = 1"
proof -
  have e: "crateName ''/proj'' ''b/demo'' = ''demo''" "crateName ''/proj'' ''a/demo'' = ''demo''"
      "wasmFileOf ''/proj'' ''b/demo'' = ''demo_bg.wasm''"
      "wasmFileOf ''/proj'' ''a/demo'' = ''demo_bg.wasm''"
      "localPathOf ''/proj'' ''b/demo'' = ''/proj/node_modules/demo/demo_bg.wasm''"
      "localPathOf ''/proj'' ''a/demo'' = ''/proj/node_modules/demo/demo_bg.wasm''"
    by (simp_all add: crateName_def wasmFileOf_def localPathOf_def path_basename_def
          path_resolve_def normalizeString_def norm_step_def isAbsolute_def)
  have s: "Map_get (wasmMap stale_registry) ''demo_bg.wasm''
        = Some \<lparr>path = ''/old/demo_bg.wasm'', name = ''old''\<rparr>"
      "Map_get (wasmMap stale_registry) ''x_bg.wasm''
        = Some \<lparr>path = ''/proj/node_modules/x/x_bg.wasm'', name = ''x''\<rparr>"
      "map fst (wasmMap stale_registry) = [''demo_bg.wasm'', ''x_bg.wasm'']"
      "Map_has (wasmMap stale_registry) ''demo_bg.wasm''"
      "Map_get (cratePathLookup stale_registry) ''b/demo'' = Some ''old_bg.wasm''"
      "Map_get (crateNameLookup stale_registry) ''demo'' = Some ''old_bg.wasm''"
    by (simp_all add: stale_registry_def Map_get_def Map_has_def)
  have l: "length (wasmMap (vitePluginWasmPack ''/proj'' (Crates [''a/demo'', ''b/demo'']))) = 1"
    by (simp add: vitePluginWasmPack_def cratePaths_def register_def empty_registry_def e)
  show ?thesis
    using later_registration_overwrites [of "''/proj''" "''b/demo''" stale_registry
        "''demo_bg.wasm''" "[''a/demo'', ''b/demo'']" "Crates [''a/demo'', ''b/demo'']"]
      later_registration_overwrites [of "''/proj''" "''b/demo''" stale_registry
        "''x_bg.wasm''" "[]" "Crates []"]
      later_registration_overwrites [of "''/proj''" "''b/demo''" stale_registry
        "''b/demo''" "[]" "Crates []"]
      later_registration_overwrites [of "''/proj''" "''b/demo''" stale_registry
        "''demo''" "[]" "Crates [''a/demo'', ''b/demo'']"]
    by (simp add: e s l cratePaths_def)
qed

text \<open>
  C4. \<^verbatim>\<open>load(id)\<close> for an identifier that starts with the internal prefix reads the file
  that \<^verbatim>\<open><cacheRoot>/<name>/<name>.js\<close> denotes, \<open>name\<close> being the identifier without the
  prefix and the cache root \<^verbatim>\<open>node_modules\<close> under the working directory, and returns its full
  text; the read fails when there is no such file. Without the prefix the result is
  \<^verbatim>\<open>undefined\<close>. For a name that is a plain segment the path is that string itself.
\<close>

theorem load_reads_glue_code:
  assumes "isAbsolute (cwd h)"
  shows "load h ident w =
     (if startsWith ident prefix then
        (case files w (path_resolve (cwd h)
                [path_resolve (cwd h) [''node_modules''] @ ''/'' @ drop (length prefix) ident
                   @ ''/'' @ drop (length prefix) ident @ ''.js'']) of
           None \<Rightarrow> Inl (ENOENT (modulejs_of (drop (length prefix) ident)))
         | Some code \<Rightarrow> Inr (Some code))
      else Inr None)
   \<and> (plain (drop (length prefix) ident) \<longrightarrow>
        path_resolve (cwd h)
          [path_resolve (cwd h) [''node_modules''] @ ''/'' @ drop (length prefix) ident
             @ ''/'' @ drop (length prefix) ident @ ''.js'']
        = path_resolve (cwd h) [''node_modules''] @ ''/'' @ drop (length prefix) ident
             @ ''/'' @ drop (length prefix) ident @ ''.js'')"
proof -
  let ?nm = "drop (length prefix) ident"
  have "plain ?nm \<Longrightarrow> plain (?nm @ ''.js'')"
    by (intro plain_suffix) (simp_all add: plain_def)
  then have norm: "plain ?nm \<longrightarrow>
      path_resolve (cwd h) [path_resolve (cwd h) [''node_modules''] @ ''/'' @ ?nm @ ''/'' @ ?nm @ ''.js'']
        = path_resolve (cwd h) [''node_modules''] @ ''/'' @ ?nm @ ''/'' @ ?nm @ ''.js''"
    using plain_path_normal [OF assms, of ?nm "?nm @ ''.js''"] by simp
  have "load h ident w =
     (if startsWith ident prefix then
        (case files w (path_resolve (cwd h)
                [path_resolve (cwd h) [''node_modules''] @ ''/'' @ ?nm @ ''/'' @ ?nm @ ''.js'']) of
           None \<Rightarrow> Inl (ENOENT (modulejs_of ?nm))
         | Some code \<Rightarrow> Inr (Some code))
      else Inr None)"
    using modulejs_resolve [OF assms, of ?nm]
    by (simp add: load_def indexOf_zero replace_prefix readFile_def split: option.splits)
  then show ?thesis using norm by blast
qed

theorem load_reads_glue_code_witness:
  "isAbsolute (cwd (demo_host True True))
   \<and> load (demo_host True True) ''@wasm-pack@demo'' demo_world
       = Inr (Some ''export default init;'')
   \<and> load (demo_host True True) ''@wasm-pack@other'' demo_world
       = Inl (ENOENT ''node_modules/other/other.js'')
   \<and> load (demo_host True True) ''demo'' demo_world = Inr None"
proof -
  have a: "isAbsolute (cwd (demo_host True True))"
    by (simp add: demo_host_def isAbsolute_def)
  have m: "modulejs_of ''other'' = ''node_modules/other/other.js''"
    by (simp add: modulejs_of_def path_eval)
  show ?thesis
    using a load_reads_glue_code [OF a, of "''@wasm-pack@demo''" demo_world]
      load_reads_glue_code [OF a, of "''@wasm-pack@other''" demo_world]
      load_reads_glue_code [OF a, of "''demo''" demo_world]
    by (simp add: m startsWith_def prefix_def demo_host_def demo_world_def path_resolve_def
          normalizeString_def norm_step_def isAbsolute_def)
qed

text \<open>
  C6. For every registered location, with the working directory absolute: the derived name
  is the base name of the resolved location, which is the last of the plain segments of
  that absolute path (empty only when the location resolves to the root); the location maps
  to the artifact filename, the name followed by \<^verbatim>\<open>_bg.wasm\<close>; the name maps to the same
  filename; and the filename maps to the name and the disk path
  \<^verbatim>\<open><cacheRoot>/<name>/<artifactFilename>\<close>, the cache root being \<^verbatim>\<open>node_modules\<close> under the
  working directory. This holds wherever the location stands in the list and whatever else
  is registered.
\<close>

theorem registry_derivations:
  assumes "isAbsolute d" and "p \<in> set (cratePaths crates)"
  shows "crateName d p = path_basename (path_resolve d [p])
   \<and> (\<exists>segs. (\<forall>s\<in>set segs. plain s) \<and> path_resolve d [p] = CHR ''/'' # join_segs segs
          \<and> crateName d p = (if segs = [] then [] else last segs))
   \<and> Map_get (cratePathLookup (vitePluginWasmPack d crates)) p = Some (crateName d p @ ''_bg.wasm'')
   \<and> Map_get (crateNameLookup (vitePluginWasmPack d crates)) (crateName d p)
        = Some (crateName d p @ ''_bg.wasm'')
   \<and> Map_get (wasmMap (vitePluginWasmPack d crates)) (crateName d p @ ''_bg.wasm'')
        = Some \<lparr>path = path_resolve d [''node_modules'']
                          @ (if crateName d p = [] then [] else ''/'' @ crateName d p)
                          @ ''/'' @ crateName d p @ ''_bg.wasm'',
                 name = crateName d p\<rparr>"
proof -
  let ?R = "vitePluginWasmPack d crates"
  obtain q1 where q1: "find (\<lambda>q. q = p) (rev (cratePaths crates)) = Some q1" "q1 = p"
    using find_same_key [OF assms(2), of "\<lambda>q. q"] by auto
  obtain q2 where q2: "find (\<lambda>q. crateName d q = crateName d p) (rev (cratePaths crates)) = Some q2"
      "crateName d q2 = crateName d p"
    using find_same_key [OF assms(2), of "crateName d"] by auto
  obtain q3 where q3: "find (\<lambda>q. wasmFileOf d q = wasmFileOf d p) (rev (cratePaths crates)) = Some q3"
      "wasmFileOf d q3 = wasmFileOf d p"
    using find_same_key [OF assms(2), of "wasmFileOf d"] by auto
  have n3: "crateName d q3 = crateName d p" using q3(2) by (simp add: wasmFileOf_inj)
  have a: "Map_get (cratePathLookup ?R) p = Some (crateName d p @ ''_bg.wasm'')"
    using q1 by (simp add: Map_get_def vitePluginWasmPack_def cratePathLookup_fold wasmFileOf_def)
  have b: "Map_get (crateNameLookup ?R) (crateName d p) = Some (crateName d p @ ''_bg.wasm'')"
    using q2 by (simp add: Map_get_def vitePluginWasmPack_def crateNameLookup_fold wasmFileOf_def)
  have "Map_get (wasmMap ?R) (wasmFileOf d p)
      = Some \<lparr>path = localPathOf d q3, name = crateName d q3\<rparr>"
    using q3(1) by (simp add: Map_get_def vitePluginWasmPack_def wasmMap_fold)
  then have c: "Map_get (wasmMap ?R) (crateName d p @ ''_bg.wasm'')
      = Some \<lparr>path = path_resolve d [''node_modules'']
                          @ (if crateName d p = [] then [] else ''/'' @ crateName d p)
                          @ ''/'' @ crateName d p @ ''_bg.wasm'',
               name = crateName d p\<rparr>"
    using localPath_form [OF assms(1), of q3] n3 by (simp add: wasmFileOf_def)
  show ?thesis
    using a b c crateName_segments [OF assms(1), of p] by (simp add: crateName_def)
qed

theorem registry_derivations_witness:
  "isAbsolute ''/proj''
   \<and> ''../../my_crate'' \<in> set (cratePaths (Crates [''./crates/demo'', ''../../my_crate'']))
   \<and> crateName ''/proj'' ''../../my_crate'' = ''my_crate''
   \<and> Map_get (cratePathLookup (vitePluginWasmPack ''/proj''
                   (Crates [''./crates/demo'', ''../../my_crate''])))
         ''../../my_crate'' = Some ''my_crate_bg.wasm''
   \<and> Map_get (wasmMap (vitePluginWasmPack ''/proj''
                   (Crates [''./crates/demo'', ''../../my_crate''])))
         ''my_crate_bg.wasm''
       = Some \<lparr>path = ''/proj/node_modules/my_crate/my_crate_bg.wasm'', name = ''my_crate''\<rparr>"
  using registry_derivations [of "''/proj''" "''../../my_crate''"
      "Crates [''./crates/demo'', ''../../my_crate'']"]
  by (simp add: isAbsolute_def cratePaths_def crateName_def path_basename_def path_resolve_def
        normalizeString_def norm_step_def)

text \<open>
  C9. One call of the compiler invoker runs the child process once: the trace grows by one
  \<^verbatim>\<open>exec\<close> of the command, the files are what the process leaves, and the promise
  resolves with the standard error text when the process reports no error and is rejected
  with \<^verbatim>\<open>wasm-pack execution error: \<close> followed by the error of the process otherwise. The
  output directory is \<^verbatim>\<open>pkg\<close> when none is given.
\<close>

theorem runWasmPackBuild_contract:
  assumes "run_process h (command_of h (case outDirArg of None \<Rightarrow> ''pkg'' | Some dir \<Rightarrow> dir))
             (files w) = (r, fs')"
  shows "runWasmPackBuild h cratePath outDirArg w =
     ((case error r of
         None \<Rightarrow> Inr (stderr r)
       | Some e \<Rightarrow> Inl (Reject (''wasm-pack execution error: '' @ e))),
      w\<lparr>files := fs',
        trace := trace w
          @ [Exec (wasmPackPath h @ '' build --target web --out-dir ''
                   @ (case outDirArg of None \<Rightarrow> ''pkg'' | Some dir \<Rightarrow> dir))]\<rparr>)"
  using assms
  by (simp add: runWasmPackBuild_def log_event_def command_of_def split: option.splits)

theorem runWasmPackBuild_contract_witness:
  "runWasmPackBuild (demo_host True True) ''./crates/demo'' None demo_world =
     (Inr ''[INFO]: done'',
      demo_world\<lparr>files := (files demo_world)(''/proj/node_modules/demo/package.json'' \<mapsto> demo_manifest),
        trace := [Exec ''/proj/node_modules/vite-plugin-wasm-pack/node_modules/.bin/wasm-pack build --target web --out-dir pkg'']\<rparr>)
   \<and> fst (runWasmPackBuild (demo_host False True) ''./crates/demo'' None demo_world)
       = Inl (Reject ''wasm-pack execution error: Error: Command failed'')"
  using runWasmPackBuild_contract [of "demo_host True True" None demo_world
      "\<lparr>error = None, stdout = [], stderr = ''[INFO]: done''\<rparr>"
      "(files demo_world)(''/proj/node_modules/demo/package.json'' \<mapsto> demo_manifest)"
      "''./crates/demo''"]
    runWasmPackBuild_contract [of "demo_host False True" None demo_world
      "\<lparr>error = Some ''Error: Command failed'', stdout = [], stderr = []\<rparr>"
      "files demo_world" "''./crates/demo''"]
  by (simp add: demo_host_def demo_world_def wasmPackPath_def path_join_def path_dirname_def
        path_normalize_def normalizeString_def norm_step_def isAbsolute_def)

text \<open>
  C2. The command is \<^verbatim>\<open><wasmPackPath> build --target web --out-dir <outDir>\<close>, and it
  is the whole request: \<^verbatim>\<open>exec\<close> gets no working directory and the command names no
  package, so the invocation is the same for every package location. For the location
  \<^verbatim>\<open>./crates/demo\<close> the process started is the one below, run in the working directory of
  the bundler.
\<close>

theorem runWasmPackBuild_ignores_cratePath:
  "runWasmPackBuild h cratePath outDirArg w = runWasmPackBuild h cratePath' outDirArg w
   \<and> trace (snd (runWasmPackBuild (demo_host True True) ''./crates/demo''
                   (Some ''/proj/node_modules/demo'') demo_world))
     = [Exec ''/proj/node_modules/vite-plugin-wasm-pack/node_modules/.bin/wasm-pack build --target web --out-dir /proj/node_modules/demo'']"
  by (simp add: runWasmPackBuild_def log_event_def command_of_def demo_host_def demo_world_def
        wasmPackPath_def path_join_def path_dirname_def path_normalize_def normalizeString_def
        norm_step_def isAbsolute_def)






text \<open>
  C8. With every artifact of the table on disk, \<^verbatim>\<open>buildEnd\<close> returns normally and adds to
  the trace one \<^verbatim>\<open>emitFile\<close> per entry of the table, in the order of the table: an asset
  named \<^verbatim>\<open>assets/<artifactFilename>\<close> whose source is the content of the file at the
  entry's disk path. The keys of the table are distinct, and they are the artifact filenames
  of the registered packages.
\<close>

theorem buildEnd_emits_each_artifact:
  assumes "isAbsolute (cwd h)"
    and "\<forall>e\<in>set (wasmMap (vitePluginWasmPack (cwd h) crates)).
           files w (path (snd e)) = Some (content (fst e))"
  shows "buildEnd h (vitePluginWasmPack (cwd h) crates) w =
       (Inr (),
        w\<lparr>trace := trace w
             @ map (\<lambda>e. EmitFile ''asset'' (''assets/'' @ fst e) (content (fst e)))
                 (wasmMap (vitePluginWasmPack (cwd h) crates))\<rparr>)
   \<and> distinct (map fst (wasmMap (vitePluginWasmPack (cwd h) crates)))
   \<and> fst ` set (wasmMap (vitePluginWasmPack (cwd h) crates))
       = wasmFileOf (cwd h) ` set (cratePaths crates)"
proof -
  let ?R = "vitePluginWasmPack (cwd h) crates"
  have "\<forall>e\<in>set (wasmMap ?R). readFile h w (path (snd e)) = Inr (content (fst e))"
  proof
    fix e assume e: "e \<in> set (wasmMap ?R)"
    then obtain q where "e = (wasmFileOf (cwd h) q,
        \<lparr>path = localPathOf (cwd h) q, name = crateName (cwd h) q\<rparr>)"
      using wasmMap_entries [of e "cwd h" "cratePaths crates" empty_registry]
      by (auto simp: vitePluginWasmPack_def empty_registry_def)
    then show "readFile h w (path (snd e)) = Inr (content (fst e))"
      using assms(2) e readFile_localPath [OF assms(1), of w q] by auto
  qed
  then have "buildEnd h ?R w =
       (Inr (),
        w\<lparr>trace := trace w
             @ map (\<lambda>e. EmitFile ''asset'' (''assets/'' @ fst e) (content (fst e))) (wasmMap ?R)\<rparr>)"
    unfolding buildEnd_def by (rule buildEnd_loop_ok)
  moreover have "distinct (map fst (wasmMap ?R))"
    by (simp add: vitePluginWasmPack_def distinct_fold empty_registry_def)
  moreover have "fst ` set (wasmMap ?R) = wasmFileOf (cwd h) ` set (cratePaths crates)"
    by (simp add: vitePluginWasmPack_def keys_fold empty_registry_def)
  ultimately show ?thesis by blast
qed

theorem buildEnd_emits_each_artifact_witness:
  "buildEnd (demo_host True True) (vitePluginWasmPack ''/proj'' (OneCrate ''./demo'')) demo_world
     = (Inr (), demo_world\<lparr>trace := [EmitFile ''asset'' ''assets/demo_bg.wasm'' ''asm'']\<rparr>)"
proof -
  have c: "cwd (demo_host True True) = ''/proj''" by (simp add: demo_host_def)
  have R: "wasmMap (vitePluginWasmPack ''/proj'' (OneCrate ''./demo''))
      = [(''demo_bg.wasm'', \<lparr>path = ''/proj/node_modules/demo/demo_bg.wasm'', name = ''demo''\<rparr>)]"
    by (simp add: vitePluginWasmPack_def cratePaths_def register_def empty_registry_def
          wasmFileOf_def localPathOf_def crateName_def path_eval)
  have a: "isAbsolute (cwd (demo_host True True))" by (simp add: c isAbsolute_def)
  have f: "\<forall>e\<in>set (wasmMap (vitePluginWasmPack (cwd (demo_host True True)) (OneCrate ''./demo''))).
      files demo_world (path (snd e)) = Some ((\<lambda>f. ''asm'') (fst e))"
    unfolding c R by (simp add: demo_world_def)
  show ?thesis
    using buildEnd_emits_each_artifact [OF a f] unfolding c R
    by (simp add: demo_world_def)
qed

text \<open>
  C3, as the code has it. For a request whose URL is a string: when the last segment of the
  URL is, character for character, the artifact filename of a registered package, the
  answer is status 200 with the no-cache header and the content type
  \<^verbatim>\<open>application/wasm\<close>, and its body is the content of the file at the disk path of the
  package (the stream fails when the file is missing); in every other case \<^verbatim>\<open>next\<close> is
  called and nothing is answered. The test on the extension never fails for a key of the
  table.
\<close>

theorem middleware_serves_exact_name:
  assumes "isAbsolute (cwd h)"
  shows "(\<forall>q\<in>set (cratePaths crates). path_basename u = wasmFileOf (cwd h) q \<longrightarrow>
           middleware h (vitePluginWasmPack (cwd h) crates) w (Some u) =
             Responded 200
               [(''Cache-Control'', ''no-cache, no-store, must-revalidate''),
                (''Content-Type'', ''application/wasm'')]
               (case files w (localPathOf (cwd h) q) of
                  None \<Rightarrow> Inl (ENOENT (localPathOf (cwd h) q))
                | Some bytes \<Rightarrow> Inr bytes))
   \<and> (path_basename u \<notin> wasmFileOf (cwd h) ` set (cratePaths crates) \<longrightarrow>
        middleware h (vitePluginWasmPack (cwd h) crates) w (Some u) = NextCalled)"
proof (intro conjI ballI impI)
  fix q assume q: "q \<in> set (cratePaths crates)" and u: "path_basename u = wasmFileOf (cwd h) q"
  obtain q3 where q3: "find (\<lambda>x. wasmFileOf (cwd h) x = wasmFileOf (cwd h) q) (rev (cratePaths crates)) = Some q3"
      "wasmFileOf (cwd h) q3 = wasmFileOf (cwd h) q"
    using find_same_key [OF q, of "wasmFileOf (cwd h)"] by auto
  then have lp: "localPathOf (cwd h) q3 = localPathOf (cwd h) q"
    by (intro localPath_name) (simp add: wasmFileOf_inj)
  have g: "Map_get (wasmMap (vitePluginWasmPack (cwd h) crates)) (wasmFileOf (cwd h) q)
      = Some \<lparr>path = localPathOf (cwd h) q, name = crateName (cwd h) q3\<rparr>"
    using q3(1) lp by (simp add: Map_get_def vitePluginWasmPack_def wasmMap_fold)
  have sfx: "endsWith (toLowerCase (wasmFileOf (cwd h) q)) ''.wasm''"
    unfolding wasmFileOf_def by (rule wasm_key_suffix)
  show "middleware h (vitePluginWasmPack (cwd h) crates) w (Some u) =
             Responded 200
               [(''Cache-Control'', ''no-cache, no-store, must-revalidate''),
                (''Content-Type'', ''application/wasm'')]
               (case files w (localPathOf (cwd h) q) of
                  None \<Rightarrow> Inl (ENOENT (localPathOf (cwd h) q))
                | Some bytes \<Rightarrow> Inr bytes)"
    using u g sfx readFile_localPath [OF assms, of w q] by (simp add: middleware_def)
next
  assume "path_basename u \<notin> wasmFileOf (cwd h) ` set (cratePaths crates)"
  then have "\<forall>x\<in>set (cratePaths crates). wasmFileOf (cwd h) x \<noteq> path_basename u"
    by (auto simp: image_iff)
  then have "find (\<lambda>x. wasmFileOf (cwd h) x = path_basename u) (rev (cratePaths crates)) = None"
    by (simp add: find_eq_None)
  then have "Map_get (wasmMap (vitePluginWasmPack (cwd h) crates)) (path_basename u) = None"
    by (simp add: Map_get_def vitePluginWasmPack_def wasmMap_fold empty_registry_def)
  then show "middleware h (vitePluginWasmPack (cwd h) crates) w (Some u) = NextCalled"
    by (simp add: middleware_def)
qed

theorem middleware_serves_exact_name_witness:
  "middleware (demo_host True True) (vitePluginWasmPack ''/proj'' (OneCrate ''./demo'')) demo_world
       (Some ''/pkg/demo_bg.wasm'')
     = Responded 200
         [(''Cache-Control'', ''no-cache, no-store, must-revalidate''),
          (''Content-Type'', ''application/wasm'')]
         (Inr ''asm'')
   \<and> middleware (demo_host True True) (vitePluginWasmPack ''/proj'' (OneCrate ''./demo'')) demo_world
       (Some ''/index.html'') = NextCalled"
proof -
  have c: "cwd (demo_host True True) = ''/proj''" by (simp add: demo_host_def)
  have a: "isAbsolute (cwd (demo_host True True))" by (simp add: c isAbsolute_def)
  have e: "wasmFileOf ''/proj'' ''./demo'' = ''demo_bg.wasm''"
      "localPathOf ''/proj'' ''./demo'' = ''/proj/node_modules/demo/demo_bg.wasm''"
      "path_basename ''/pkg/demo_bg.wasm'' = ''demo_bg.wasm''"
      "path_basename ''/index.html'' = ''index.html''"
    by (simp_all add: wasmFileOf_def localPathOf_def crateName_def path_eval)
  show ?thesis
    using middleware_serves_exact_name [OF a, of "OneCrate ''./demo''" "''/pkg/demo_bg.wasm''" demo_world]
      middleware_serves_exact_name [OF a, of "OneCrate ''./demo''" "''/index.html''" demo_world]
    unfolding c by (simp add: e cratePaths_def demo_world_def)
qed

text \<open>
  C3 as stated fails: a request for the artifact filename in upper case is passed on,
  although the filename in lower case is a key of the table and the file is on disk.
\<close>

theorem middleware_case_sensitive_counterexample:
  "toLowerCase ''DEMO_BG.WASM'' = ''demo_bg.wasm''
   \<and> Map_has (wasmMap (vitePluginWasmPack ''/proj'' (OneCrate ''./demo''))) ''demo_bg.wasm''
   \<and> files demo_world ''/proj/node_modules/demo/demo_bg.wasm'' = Some ''asm''
   \<and> middleware (demo_host True True) (vitePluginWasmPack ''/proj'' (OneCrate ''./demo''))
        demo_world (Some ''/DEMO_BG.WASM'') = NextCalled"
  by (simp add: toLowerCase_def lower_char_def Map_has_def Map_get_def middleware_def
        vitePluginWasmPack_def cratePaths_def register_def empty_registry_def wasmFileOf_def
        localPathOf_def crateName_def demo_world_def path_eval)

end
